theory Spec2Isabelle
  imports Complex_Main "HOL-Library.Sublist" "HOL-Library.Log_Nat"
begin


section \<open>Text\<close>

text \<open>
  A Python \<open>str\<close> is represented by its UTF-8 code units: a \<open>string\<close> whose characters
  are the bytes of the encoded text. ASCII characters are single bytes, so literals read as
  in the source; the emoji of the user messages are three- and six-byte sequences.
  Equality and the substring test \<open>in\<close> of well-formed text coincide with those of the
  code units.
\<close>

definition lower_char :: "char \<Rightarrow> char" where
  "lower_char c =
     (let n = (of_char c :: nat) in if 65 \<le> n \<and> n \<le> 90 then char_of (n + 32) else c)"

text \<open>
  \<open>str.lower()\<close>. The letters \<open>A\<close> to \<open>Z\<close> are mapped as Python maps them; Python also
  maps the cased letters outside ASCII by the Unicode tables, which are not part of the
  program, and the model leaves those code units as they are. No theorem below depends on
  which characters \<open>lower\<close> changes.
\<close>

definition lower :: "string \<Rightarrow> string" where
  "lower s = map lower_char s"

text \<open>
  The characters \<open>str.strip()\<close> removes: the 29 code points for which \<open>str.isspace()\<close>
  holds, each by its UTF-8 encoding (U+0009 to U+000D, U+001C to U+0020, U+0085, U+00A0,
  U+1680, U+2000 to U+200A, U+2028, U+2029, U+202F, U+205F, U+3000).
\<close>

definition whitespace :: "string list" where
  "whitespace =
     map (\<lambda>c. [c]) [CHR 0x09, CHR 0x0A, CHR 0x0B, CHR 0x0C, CHR 0x0D,
                     CHR 0x1C, CHR 0x1D, CHR 0x1E, CHR 0x1F, CHR 0x20] @
     [[CHR 0xC2, CHR 0x85], [CHR 0xC2, CHR 0xA0], [CHR 0xE1, CHR 0x9A, CHR 0x80]] @
     map (\<lambda>c. [CHR 0xE2, CHR 0x80, c])
       [CHR 0x80, CHR 0x81, CHR 0x82, CHR 0x83, CHR 0x84, CHR 0x85, CHR 0x86, CHR 0x87,
        CHR 0x88, CHR 0x89, CHR 0x8A, CHR 0xA8, CHR 0xA9, CHR 0xAF] @
     [[CHR 0xE2, CHR 0x81, CHR 0x9F], [CHR 0xE3, CHR 0x80, CHR 0x80]]"

function lstrip :: "string \<Rightarrow> string" where
  "lstrip s =
     (case List.find (\<lambda>w. prefix w s) whitespace of
        None \<Rightarrow> s
      | Some w \<Rightarrow> lstrip (drop (length w) s))"
  by pat_completeness auto

function rstrip :: "string \<Rightarrow> string" where
  "rstrip s =
     (case List.find (\<lambda>w. suffix w s) whitespace of
        None \<Rightarrow> s
      | Some w \<Rightarrow> rstrip (take (length s - length w) s))"
  by pat_completeness auto

lemma whitespace_no_empty: "[] \<notin> set whitespace"
  by (simp add: whitespace_def)

lemma find_whitespace_prefix:
  assumes "List.find (\<lambda>w. prefix w s) whitespace = Some w"
  shows "w \<noteq> [] \<and> prefix w s"
proof -
  from assms have "w \<in> set whitespace" "prefix w s"
    by (auto simp: find_Some_iff)
  then show ?thesis
    using whitespace_no_empty by auto
qed

lemma find_whitespace_suffix:
  assumes "List.find (\<lambda>w. suffix w s) whitespace = Some w"
  shows "w \<noteq> [] \<and> suffix w s"
proof -
  from assms have "w \<in> set whitespace" "suffix w s"
    by (auto simp: find_Some_iff)
  then show ?thesis
    using whitespace_no_empty by auto
qed

termination lstrip
proof (relation "measure length")
  show "wf (measure length)" by simp
next
  fix s :: string and w
  assume "List.find (\<lambda>w. prefix w s) whitespace = Some w"
  then have "w \<noteq> []" "prefix w s"
    using find_whitespace_prefix by blast+
  then have "s \<noteq> []" by auto
  with \<open>w \<noteq> []\<close> show "(drop (length w) s, s) \<in> measure length"
    by simp
qed

termination rstrip
proof (relation "measure length")
  show "wf (measure length)" by simp
next
  fix s :: string and w
  assume "List.find (\<lambda>w. suffix w s) whitespace = Some w"
  then have "w \<noteq> []" "suffix w s"
    using find_whitespace_suffix by blast+
  then have "s \<noteq> []" by auto
  with \<open>w \<noteq> []\<close> show "(take (length s - length w) s, s) \<in> measure length"
    by simp
qed

declare lstrip.simps [simp del] rstrip.simps [simp del]

text \<open>\<open>str.strip()\<close>: whitespace removed at both ends.\<close>

definition strip :: "string \<Rightarrow> string" where
  "strip s = rstrip (lstrip s)"



section \<open>Double precision\<close>

text \<open>
  A Python \<open>float\<close> is an IEEE 754 double. A finite double is a rational number, and every
  operation returns the double nearest to the exact result, a tie going to the even
  significand. \<open>round_double\<close> is that rounding: \<open>binade x\<close> is the exponent \<open>e\<close> with
  \<open>2\<^sup>e \<le> x < 2\<^sup>e\<^sup>+\<^sup>1\<close>, and the significand has 53 bits. The exponent is not bounded
  here; a double's is, and the two agree for magnitudes from \<open>2\<^sup>-\<^sup>1\<^sup>0\<^sup>2\<^sup>2\<close> up to the largest
  double, which covers every quotient of two list lengths.
\<close>

definition round_half_even :: "rat \<Rightarrow> int" where
  "round_half_even q =
     (let f = \<lfloor>q\<rfloor>; d = q - of_int f
      in if d < 1 / 2 then f else if 1 / 2 < d then f + 1 else if even f then f else f + 1)"

definition binade :: "rat \<Rightarrow> int" where
  "binade x =
     (let (p, q) = quotient_of x; k = bitlen p - bitlen q
      in if 2 powi k \<le> x then k else k - 1)"

definition round_double :: "rat \<Rightarrow> rat" where
  "round_double x =
     (if x = 0 then 0
      else let u = 2 powi (binade \<bar>x\<bar> - 52)
           in sgn x * of_int (round_half_even (\<bar>x\<bar> / u)) * u)"

datatype py_error =
  ZeroDivisionError | UnicodeDecodeError | JSONDecodeError | FileNotFoundError

text \<open>\<open>a / b\<close> on two \<open>int\<close>s: the correctly rounded quotient, or an error when \<open>b\<close> is 0.\<close>

definition int_truediv :: "int \<Rightarrow> int \<Rightarrow> py_error + rat" where
  "int_truediv a b =
     (if b = 0 then Inl ZeroDivisionError else Inr (round_double (of_int a / of_int b)))"

text \<open>\<open>x * n\<close> on a \<open>float\<close> and an \<open>int\<close> that converts exactly.\<close>

definition float_mul_int :: "rat \<Rightarrow> int \<Rightarrow> rat" where
  "float_mul_int x n = round_double (x * of_int n)"

section \<open>Book records and the catalog\<close>

text \<open>
  A book is the dictionary that \<open>add_book\<close> builds, with the keys \<open>title\<close>, \<open>author\<close>,
  \<open>year\<close>, \<open>genre\<close> and \<open>read\<close>; the catalog \<open>self.library\<close> is a list of them.
\<close>

record book =
  title :: string
  author :: string
  year :: int
  genre :: string
  read :: bool

text \<open>
  Python numbers: an \<open>int\<close>, or a \<open>float\<close> given by the rational value of the double.
\<close>

datatype py_num = PyInt int | PyFloat rat

text \<open>\<open>int(year)\<close>: an \<open>int\<close> is kept, a \<open>float\<close> is truncated towards zero.\<close>

fun py_int :: "py_num \<Rightarrow> int" where
  "py_int (PyInt i) = i"
| "py_int (PyFloat q) = (if 0 \<le> q then \<lfloor>q\<rfloor> else \<lceil>q\<rceil>)"

section \<open>JSON text written by \<open>json.dump\<close>\<close>

text \<open>
  \<open>json.dump(self.library, file, indent=4, ensure_ascii=False)\<close> on a list of book
  dictionaries: the text it produces.
\<close>

definition digit_char :: "nat \<Rightarrow> char" where
  "digit_char n = char_of (48 + n)"

function show_nat :: "nat \<Rightarrow> string" where
  "show_nat n = (if n < 10 then [digit_char n] else show_nat (n div 10) @ [digit_char (n mod 10)])"
  by pat_completeness auto
termination
  by (relation "measure id") auto

declare show_nat.simps [simp del]

definition show_int :: "int \<Rightarrow> string" where
  "show_int i = (if i < 0 then CHR ''-'' # show_nat (nat (- i)) else show_nat (nat i))"

definition hex_digit :: "nat \<Rightarrow> char" where
  "hex_digit n = (if n < 10 then char_of (48 + n) else char_of (87 + n))"

text \<open>
  With \<open>ensure_ascii=False\<close> the encoder escapes the quote, the backslash and the control
  characters below U+0020, and writes every other character as it is.
\<close>

definition escape_char :: "char \<Rightarrow> string" where
  "escape_char c =
     (if c = CHR 0x22 then [CHR 0x5C, CHR 0x22]
      else if c = CHR 0x5C then [CHR 0x5C, CHR 0x5C]
      else if c = CHR 0x0A then [CHR 0x5C, CHR ''n'']
      else if c = CHR 0x0D then [CHR 0x5C, CHR ''r'']
      else if c = CHR 0x09 then [CHR 0x5C, CHR ''t'']
      else if c = CHR 0x08 then [CHR 0x5C, CHR ''b'']
      else if c = CHR 0x0C then [CHR 0x5C, CHR ''f'']
      else if (of_char c :: nat) < 32 then
        [CHR 0x5C, CHR ''u'', CHR ''0'', CHR ''0'',
         hex_digit ((of_char c :: nat) div 16), hex_digit ((of_char c :: nat) mod 16)]
      else [c])"

definition json_string :: "string \<Rightarrow> string" where
  "json_string s = CHR 0x22 # concat (map escape_char s) @ [CHR 0x22]"

text \<open>\<open>indent=4\<close>: a line break followed by four spaces for each level of nesting.\<close>

definition newline_indent :: "nat \<Rightarrow> string" where
  "newline_indent lvl = CHR 0x0A # replicate (4 * lvl) (CHR '' '')"

text \<open>
  A book at nesting level 1: its five members, each on a line of its own at level 2, in
  the order in which \<open>add_book\<close> writes the keys.
\<close>

definition encode_book :: "book \<Rightarrow> string" where
  "encode_book b =
     ''{'' @ newline_indent 2 @ json_string ''title'' @ '': '' @ json_string (title b) @
     '','' @ newline_indent 2 @ json_string ''author'' @ '': '' @ json_string (author b) @
     '','' @ newline_indent 2 @ json_string ''year'' @ '': '' @ show_int (year b) @
     '','' @ newline_indent 2 @ json_string ''genre'' @ '': '' @ json_string (genre b) @
     '','' @ newline_indent 2 @ json_string ''read'' @ '': '' @
       (if read b then ''true'' else ''false'') @
     newline_indent 1 @ ''}''"

fun encode_books :: "book list \<Rightarrow> string" where
  "encode_books [] = []"
| "encode_books [b] = encode_book b"
| "encode_books (b # c # bs) = encode_book b @ '','' @ newline_indent 1 @ encode_books (c # bs)"

definition json_dump :: "book list \<Rightarrow> string" where
  "json_dump bs =
     (if bs = [] then ''[]''
      else ''['' @ newline_indent 1 @ encode_books bs @ newline_indent 0 @ '']'')"

section \<open>The library manager\<close>

text \<open>
  What the manager does besides changing \<open>self.library\<close>: it rewrites the file
  (\<open>save_library\<close>) and reports to the user through \<open>st.success\<close>, \<open>st.error\<close> and
  \<open>st.warning\<close>. Each is recorded, in the order of the calls.
\<close>

datatype event =
  FileWritten string
| StSuccess string
| StError string
| StWarning string

text \<open>
  The state: the catalog, the content of the file \<open>self.filename\<close> (\<open>None\<close> when there is
  no such file), and the events so far.
\<close>

record manager =
  library :: "book list"
  storage :: "string option"
  trace :: "event list"

text \<open>
  \<open>save_library\<close> opens the file for writing and dumps the catalog. The write is taken to
  succeed; a write that fails raises in the program and is not part of this model.
\<close>

definition save_library :: "manager \<Rightarrow> manager" where
  "save_library m =
     m\<lparr>storage := Some (json_dump (library m)),
       trace := trace m @ [FileWritten (json_dump (library m))]\<rparr>"

definition report :: "event \<Rightarrow> manager \<Rightarrow> manager" where
  "report e m = m\<lparr>trace := trace m @ [e]\<rparr>"

definition added_message :: "string \<Rightarrow> string" where
  "added_message ttl =
     [CHR 0xE2, CHR 0x9C, CHR 0x85] @ '' Book **'' @ ttl @ ''** added successfully!''"

definition removed_message :: "string \<Rightarrow> string" where
  "removed_message ttl =
     [CHR 0xE2, CHR 0x9D, CHR 0x8C] @ '' Book **'' @ ttl @ ''** removed successfully!''"

definition not_found_message :: "string \<Rightarrow> string" where
  "not_found_message ttl =
     [CHR 0xE2, CHR 0x9A, CHR 0xA0, CHR 0xEF, CHR 0xB8, CHR 0x8F] @
     '' Book **'' @ ttl @ ''** not found in the library.''"

definition add_book :: "manager \<Rightarrow> string \<Rightarrow> string \<Rightarrow> py_num \<Rightarrow> string \<Rightarrow> bool \<Rightarrow> manager" where
  "add_book m ttl auth yr gnr read_status =
     (if ttl = [] \<or> auth = [] then report (StError ''Title and Author cannot be empty!'') m
      else
        let m1 = m\<lparr>library := library m @
                    [\<lparr>title = strip ttl, author = strip auth, year = py_int yr,
                      genre = strip gnr, read = read_status\<rparr>]\<rparr>;
            m2 = save_library m1
        in report (StSuccess (added_message ttl)) m2)"

definition remove_book :: "manager \<Rightarrow> string \<Rightarrow> manager" where
  "remove_book m ttl =
     (let initial_count = length (library m);
          m1 = m\<lparr>library := [b \<leftarrow> library m. lower (title b) \<noteq> lower ttl]\<rparr>;
          m2 = save_library m1
      in if length (library m2) < initial_count
         then report (StSuccess (removed_message ttl)) m2
         else report (StWarning (not_found_message ttl)) m2)"


section \<open>Statistics\<close>

text \<open>
  \<open>display_statistics\<close> reads \<open>self.library\<close> and returns a pair; it assigns nothing and
  calls nothing of the manager. The quotient is taken only under the test
  \<open>total_books > 0\<close>; the other branch returns the \<open>int\<close> 0.
\<close>

definition display_statistics :: "manager \<Rightarrow> py_error + (int \<times> py_num)" where
  "display_statistics m =
     (let total_books = int (length (library m));
          read_books = (\<Sum>b \<leftarrow> [b \<leftarrow> library m. read b]. (1::int))
      in if total_books > 0
         then (case int_truediv read_books total_books of
                 Inl e \<Rightarrow> Inl e
               | Inr q \<Rightarrow> Inr (total_books, PyFloat (float_mul_int q 100)))
         else Inr (total_books, PyInt 0))"

text \<open>The rational value of a Python number.\<close>

fun py_value :: "py_num \<Rightarrow> rat" where
  "py_value (PyInt i) = of_int i"
| "py_value (PyFloat q) = q"

section \<open>Reading the file\<close>

text \<open>
  The file is opened with \<open>encoding="utf-8"\<close>, so its bytes are decoded before anything is
  parsed, and bytes that are not well-formed UTF-8 raise \<open>UnicodeDecodeError\<close>. Text being
  represented by its UTF-8 code units, decoding returns the bytes themselves when they are
  well formed.
\<close>

definition is_cont :: "nat \<Rightarrow> bool" where
  "is_cont b = (0x80 \<le> b \<and> b \<le> 0xBF)"

fun utf8_valid :: "nat list \<Rightarrow> bool" where
  "utf8_valid [] = True"
| "utf8_valid (a # bs) =
     (if a < 0x80 then utf8_valid bs
      else if 0xC2 \<le> a \<and> a \<le> 0xDF then
        (case bs of b # cs \<Rightarrow> is_cont b \<and> utf8_valid cs | _ \<Rightarrow> False)
      else if 0xE0 \<le> a \<and> a \<le> 0xEF then
        (case bs of
           b # c # ds \<Rightarrow>
             (if a = 0xE0 then 0xA0 \<le> b \<and> b \<le> 0xBF
              else if a = 0xED then 0x80 \<le> b \<and> b \<le> 0x9F
              else is_cont b) \<and>
             is_cont c \<and> utf8_valid ds
         | _ \<Rightarrow> False)
      else if 0xF0 \<le> a \<and> a \<le> 0xF4 then
        (case bs of
           b # c # d # es \<Rightarrow>
             (if a = 0xF0 then 0x90 \<le> b \<and> b \<le> 0xBF
              else if a = 0xF4 then 0x80 \<le> b \<and> b \<le> 0x8F
              else is_cont b) \<and>
             is_cont c \<and> is_cont d \<and> utf8_valid es
         | _ \<Rightarrow> False)
      else False)"

definition utf8_decode :: "string \<Rightarrow> py_error + string" where
  "utf8_decode bytes =
     (if utf8_valid (map of_char bytes) then Inr bytes else Inl UnicodeDecodeError)"

text \<open>
  \<open>json.load\<close> belongs to Python's standard library, not to the program. It is modelled
  after the decoder of CPython: the JSON grammar, with the constants \<open>NaN\<close>, \<open>Infinity\<close>
  and \<open>-Infinity\<close> that the decoder also accepts, blanks, tabs and line ends between
  tokens, and \<open>JSONDecodeError\<close> for every other text. The text is first cut into tokens,
  which are then parsed; the decoder does both in one pass and accepts the same texts.
  Two limits of the interpreter are not modelled: the recursion limit, which deeply nested
  arrays and objects exceed, and the limit on the number of digits of an integer. Reading
  in text mode turns every line end into a line feed; line ends are only legal between
  tokens, where all of them are skipped, so this changes no result and is left out.

  The values \<open>json.load\<close> returns: a \<open>float\<close> is given by the literal it was read from
  (a number with a fraction or an exponent, or one of the three constants), a \<open>dict\<close> by
  its items in insertion order.
\<close>

datatype json =
  JNull
| JBool bool
| JInt int
| JFloat string
| JStr string
| JList "json list"
| JDict "(string \<times> json) list"

datatype token =
  TLBrace | TRBrace | TLBracket | TRBracket | TComma | TColon
| TStr string | TInt int | TFloat string | TTrue | TFalse | TNull

text \<open>
  A code point written as \<open>\uXXXX\<close>, as UTF-8 code units. A surrogate that is not part of
  a pair is kept by the decoder; it is given the three code units of its code point, which
  are not well-formed UTF-8, as such a string cannot be encoded.
\<close>

definition utf8_encode :: "nat \<Rightarrow> string" where
  "utf8_encode n =
     (if n < 0x80 then [char_of n]
      else if n < 0x800 then [char_of (0xC0 + n div 64), char_of (0x80 + n mod 64)]
      else if n < 0x10000 then
        [char_of (0xE0 + n div 4096), char_of (0x80 + n div 64 mod 64), char_of (0x80 + n mod 64)]
      else
        [char_of (0xF0 + n div 262144), char_of (0x80 + n div 4096 mod 64),
         char_of (0x80 + n div 64 mod 64), char_of (0x80 + n mod 64)])"

definition hex_val :: "char \<Rightarrow> nat option" where
  "hex_val c =
     (let n = (of_char c :: nat)
      in if 48 \<le> n \<and> n \<le> 57 then Some (n - 48)
         else if 97 \<le> n \<and> n \<le> 102 then Some (n - 87)
         else if 65 \<le> n \<and> n \<le> 70 then Some (n - 55)
         else None)"

definition read_hex4 :: "string \<Rightarrow> nat option" where
  "read_hex4 s =
     (case s of
        a # b # c # d # _ \<Rightarrow>
          (case (hex_val a, hex_val b, hex_val c, hex_val d) of
             (Some x, Some y, Some z, Some w) \<Rightarrow> Some (((x * 16 + y) * 16 + z) * 16 + w)
           | _ \<Rightarrow> None)
      | _ \<Rightarrow> None)"

text \<open>The low half of a surrogate pair, when the text goes on with its escape.\<close>

definition low_surrogate :: "string \<Rightarrow> nat option" where
  "low_surrogate s =
     (case s of
        b # u # r \<Rightarrow>
          (if b = CHR 0x5C \<and> u = CHR ''u'' then
             (case read_hex4 r of
                Some n \<Rightarrow> if 0xDC00 \<le> n \<and> n \<le> 0xDFFF then Some n else None
              | None \<Rightarrow> None)
           else None)
      | _ \<Rightarrow> None)"

definition simple_escape :: "char \<Rightarrow> char option" where
  "simple_escape e =
     (if e = CHR 0x22 then Some (CHR 0x22)
      else if e = CHR 0x5C then Some (CHR 0x5C)
      else if e = CHR ''/'' then Some (CHR ''/'')
      else if e = CHR ''b'' then Some (CHR 0x08)
      else if e = CHR ''f'' then Some (CHR 0x0C)
      else if e = CHR ''n'' then Some (CHR 0x0A)
      else if e = CHR ''r'' then Some (CHR 0x0D)
      else if e = CHR ''t'' then Some (CHR 0x09)
      else None)"

definition prepend :: "string \<Rightarrow> (string \<times> string) option \<Rightarrow> (string \<times> string) option" where
  "prepend p r = map_option (\<lambda>(str, rest). (p @ str, rest)) r"

text \<open>
  A string, read from the character after the opening quote: its content and the text
  after the closing quote. A control character below U+0020, an unknown escape and a
  missing closing quote are errors.
\<close>

fun scan_string :: "string \<Rightarrow> (string \<times> string) option" where
  "scan_string [] = None"
| "scan_string (c # s) =
     (if c = CHR 0x22 then Some ([], s)
      else if c = CHR 0x5C then
        (case s of
           [] \<Rightarrow> None
         | e # s1 \<Rightarrow>
             if e = CHR ''u'' then
               (case read_hex4 s1 of
                  None \<Rightarrow> None
                | Some n \<Rightarrow>
                    if 0xD800 \<le> n \<and> n \<le> 0xDBFF then
                      (case low_surrogate (drop 4 s1) of
                         Some lo \<Rightarrow>
                           prepend (utf8_encode (0x10000 + (n - 0xD800) * 1024 + (lo - 0xDC00)))
                             (scan_string (drop 10 s1))
                       | None \<Rightarrow> prepend (utf8_encode n) (scan_string (drop 4 s1)))
                    else prepend (utf8_encode n) (scan_string (drop 4 s1)))
             else
               (case simple_escape e of
                  None \<Rightarrow> None
                | Some ch \<Rightarrow> prepend [ch] (scan_string s1)))
      else if (of_char c :: nat) < 32 then None
      else prepend [c] (scan_string s))"

definition is_digit :: "char \<Rightarrow> bool" where
  "is_digit c = (48 \<le> (of_char c :: nat) \<and> (of_char c :: nat) \<le> 57)"

definition digits_value :: "string \<Rightarrow> nat" where
  "digits_value ds = foldl (\<lambda>a c. a * 10 + (of_char c - 48)) 0 ds"

text \<open>
  A number: an optional minus sign, an integer part without a leading zero, and optionally
  a fraction and an exponent. Without fraction and exponent it is an \<open>int\<close>.
\<close>

definition scan_int_part :: "string \<Rightarrow> (string \<times> string) option" where
  "scan_int_part s =
     (case s of
        [] \<Rightarrow> None
      | d # r \<Rightarrow>
          if d = CHR ''0'' then Some ([d], r)
          else if is_digit d then Some (d # takeWhile is_digit r, dropWhile is_digit r)
          else None)"

definition scan_frac :: "string \<Rightarrow> string \<times> string" where
  "scan_frac r =
     (case r of
        p # d # r1 \<Rightarrow>
          if p = CHR ''.'' \<and> is_digit d
          then (p # d # takeWhile is_digit r1, dropWhile is_digit r1)
          else ([], r)
      | _ \<Rightarrow> ([], r))"

definition scan_sign :: "string \<Rightarrow> string \<times> string" where
  "scan_sign t =
     (case t of
        c # t1 \<Rightarrow> if c = CHR ''+'' \<or> c = CHR ''-'' then ([c], t1) else ([], t)
      | [] \<Rightarrow> ([], t))"

definition scan_exp :: "string \<Rightarrow> string \<times> string" where
  "scan_exp r =
     (case r of
        [] \<Rightarrow> ([], r)
      | e # t \<Rightarrow>
          if e = CHR ''e'' \<or> e = CHR ''E'' then
            (let (sg, t1) = scan_sign t
             in if takeWhile is_digit t1 = [] then ([], r)
                else (e # sg @ takeWhile is_digit t1, dropWhile is_digit t1))
          else ([], r))"

definition scan_number :: "string \<Rightarrow> (token \<times> string) option" where
  "scan_number s =
     (let (sg, s1) = (case s of c # r \<Rightarrow> if c = CHR ''-'' then ([c], r) else ([], s) | [] \<Rightarrow> ([], s))
      in case scan_int_part s1 of
           None \<Rightarrow> None
         | Some (ip, r) \<Rightarrow>
             let (fr, r1) = scan_frac r; (ex, r2) = scan_exp r1
             in Some (if fr = [] \<and> ex = []
                      then TInt (if sg = [] then int (digits_value ip) else - int (digits_value ip))
                      else TFloat (sg @ ip @ fr @ ex),
                      r2))"

definition punctuation :: "char \<Rightarrow> token option" where
  "punctuation c =
     (if c = CHR ''{'' then Some TLBrace
      else if c = CHR ''}'' then Some TRBrace
      else if c = CHR ''['' then Some TLBracket
      else if c = CHR '']'' then Some TRBracket
      else if c = CHR '','' then Some TComma
      else if c = CHR '':'' then Some TColon
      else None)"

text \<open>A constant at the start of the text: its token and its length.\<close>

definition literal :: "string \<Rightarrow> (token \<times> nat) option" where
  "literal s =
     (if prefix ''null'' s then Some (TNull, 4)
      else if prefix ''true'' s then Some (TTrue, 4)
      else if prefix ''false'' s then Some (TFalse, 5)
      else if prefix ''NaN'' s then Some (TFloat ''NaN'', 3)
      else if prefix ''Infinity'' s then Some (TFloat ''Infinity'', 8)
      else if prefix ''-Infinity'' s then Some (TFloat ''-Infinity'', 9)
      else None)"

definition is_space :: "char \<Rightarrow> bool" where
  "is_space c = (c = CHR '' '' \<or> c = CHR 0x09 \<or> c = CHR 0x0A \<or> c = CHR 0x0D)"

definition cons_token :: "token \<Rightarrow> token list option \<Rightarrow> token list option" where
  "cons_token t r = map_option (Cons t) r"

lemma prepend_Some:
  "prepend p r = Some (str, rest) \<Longrightarrow> \<exists>str1. r = Some (str1, rest)"
  by (cases r) (auto simp: prepend_def)

lemma scan_string_length: "scan_string s = Some (str, rest) \<Longrightarrow> length rest < length s"
proof (induction s arbitrary: str rest rule: scan_string.induct)
  case 1
  then show ?case by simp
next
  case (2 c s)
  from "2.prems" "2.IH" show ?case
    by (auto simp: Let_def split: if_splits list.splits option.splits dest!: prepend_Some)
      fastforce+
qed

lemma scan_int_part_length:
  "scan_int_part s = Some (ip, r) \<Longrightarrow> length r < length s"
  using length_dropWhile_le [of is_digit]
  by (auto simp: scan_int_part_def less_Suc_eq_le split: list.splits if_splits)

lemma scan_frac_length: "scan_frac r = (fr, r1) \<Longrightarrow> length r1 \<le> length r"
  using length_dropWhile_le [of is_digit]
  by (auto simp: scan_frac_def le_Suc_eq split: list.splits if_splits)

lemma scan_sign_length: "scan_sign t = (sg, t1) \<Longrightarrow> length t1 \<le> length t"
  by (auto simp: scan_sign_def split: list.splits if_splits)

lemma scan_exp_length: "scan_exp r = (ex, r2) \<Longrightarrow> length r2 \<le> length r"
proof (cases r)
  case Nil
  then show "scan_exp r = (ex, r2) \<Longrightarrow> length r2 \<le> length r"
    by (simp add: scan_exp_def)
next
  case (Cons e t)
  obtain sg t1 where st: "scan_sign t = (sg, t1)"
    by (cases "scan_sign t")
  have "length (dropWhile is_digit t1) \<le> length t"
    using length_dropWhile_le [of is_digit t1] scan_sign_length [OF st] by simp
  then show "scan_exp r = (ex, r2) \<Longrightarrow> length r2 \<le> length r"
    using Cons st by (auto simp: scan_exp_def split: if_splits)
qed

lemma scan_number_length: "scan_number s = Some (t, rest) \<Longrightarrow> length rest < length s"
proof -
  assume a: "scan_number s = Some (t, rest)"
  define s1 where "s1 = snd (case s of c # r \<Rightarrow> if c = CHR ''-'' then ([c], r) else ([], s) | [] \<Rightarrow> ([], s))"
  have s1: "length s1 \<le> length s"
    by (auto simp: s1_def split: list.splits)
  from a obtain ip r where ip: "scan_int_part s1 = Some (ip, r)"
    by (auto simp: scan_number_def s1_def split: list.splits if_splits option.splits prod.splits)
  obtain fr r1 where fr: "scan_frac r = (fr, r1)" by (cases "scan_frac r")
  obtain ex r2 where ex: "scan_exp r1 = (ex, r2)" by (cases "scan_exp r1")
  from a ip fr ex have "rest = r2"
    by (auto simp: scan_number_def s1_def split: list.splits if_splits)
  with scan_int_part_length [OF ip] scan_frac_length [OF fr] scan_exp_length [OF ex] s1
  show ?thesis by simp
qed

text \<open>
  The tokens of a text. Blanks, tabs and line ends may stand between tokens; anything that
  starts no token is an error.
\<close>

function tokenize :: "string \<Rightarrow> token list option" where
  "tokenize [] = Some []"
| "tokenize (c # s) =
     (if is_space c then tokenize s
      else case punctuation c of
        Some t \<Rightarrow> cons_token t (tokenize s)
      | None \<Rightarrow>
          if c = CHR 0x22 then
            (case scan_string s of
               None \<Rightarrow> None
             | Some (str, rest) \<Rightarrow> cons_token (TStr str) (tokenize rest))
          else
            (case literal (c # s) of
               Some (t, n) \<Rightarrow> cons_token t (tokenize (drop (n - 1) s))
             | None \<Rightarrow>
                 (case scan_number (c # s) of
                    None \<Rightarrow> None
                  | Some (t, rest) \<Rightarrow> cons_token t (tokenize rest))))"
  by pat_completeness auto
termination
proof (relation "measure length")
  show "wf (measure length)" by simp
qed (auto dest: scan_string_length scan_number_length)

declare tokenize.simps [simp del]

text \<open>
  \<open>d[k] = v\<close> on a dictionary: a key already present keeps its place and takes the new value.
\<close>

fun dict_set :: "(string \<times> json) list \<Rightarrow> string \<Rightarrow> json \<Rightarrow> (string \<times> json) list" where
  "dict_set [] k v = [(k, v)]"
| "dict_set ((k1, v1) # ps) k v = (if k1 = k then (k, v) # ps else (k1, v1) # dict_set ps k v)"

text \<open>
  The parser reads the tokens one by one. It keeps the containers that are still open, the
  innermost first: an array with its items so far (last first), an object with its items so
  far, and above an object the key whose value is being read.
\<close>

datatype frame = FArr "json list" | FObj "(string \<times> json) list" | FKey string

datatype expect =
  Value | ValueOrEnd | KeyOrEnd | Key | Colon | Done json

fun start_value :: "frame list \<Rightarrow> token \<Rightarrow> (frame list \<times> expect) option" where
  "start_value st (TStr s) = Some (st, Done (JStr s))"
| "start_value st (TInt i) = Some (st, Done (JInt i))"
| "start_value st (TFloat l) = Some (st, Done (JFloat l))"
| "start_value st TTrue = Some (st, Done (JBool True))"
| "start_value st TFalse = Some (st, Done (JBool False))"
| "start_value st TNull = Some (st, Done JNull)"
| "start_value st TLBracket = Some (FArr [] # st, ValueOrEnd)"
| "start_value st TLBrace = Some (FObj [] # st, KeyOrEnd)"
| "start_value st _ = None"

fun step :: "frame list \<times> expect \<Rightarrow> token \<Rightarrow> (frame list \<times> expect) option" where
  "step (st, Value) t = start_value st t"
| "step (FArr [] # st, ValueOrEnd) TRBracket = Some (st, Done (JList []))"
| "step (st, ValueOrEnd) t = start_value st t"
| "step (FObj [] # st, KeyOrEnd) TRBrace = Some (st, Done (JDict []))"
| "step (st, KeyOrEnd) (TStr k) = Some (FKey k # st, Colon)"
| "step (st, Key) (TStr k) = Some (FKey k # st, Colon)"
| "step (st, Colon) TColon = Some (st, Value)"
| "step (FArr items # st, Done v) TComma = Some (FArr (v # items) # st, Value)"
| "step (FArr items # st, Done v) TRBracket = Some (st, Done (JList (rev (v # items))))"
| "step (FKey k # FObj ps # st, Done v) TComma = Some (FObj (dict_set ps k v) # st, Key)"
| "step (FKey k # FObj ps # st, Done v) TRBrace = Some (st, Done (JDict (dict_set ps k v)))"
| "step _ _ = None"

fun run :: "frame list \<times> expect \<Rightarrow> token list \<Rightarrow> json option" where
  "run c [] = (case c of ([], Done v) \<Rightarrow> Some v | _ \<Rightarrow> None)"
| "run c (t # ts) = (case step c t of None \<Rightarrow> None | Some c1 \<Rightarrow> run c1 ts)"

text \<open>\<open>json.loads\<close>: the value of a text, or \<open>JSONDecodeError\<close>.\<close>

definition json_loads :: "string \<Rightarrow> py_error + json" where
  "json_loads text =
     (case tokenize text of
        None \<Rightarrow> Inl JSONDecodeError
      | Some ts \<Rightarrow> (case run ([], Value) ts of None \<Rightarrow> Inl JSONDecodeError | Some v \<Rightarrow> Inr v))"

text \<open>
  \<open>load_library\<close>. The argument is the content of the file, \<open>None\<close> when
  \<open>os.path.exists\<close> is false. \<open>json.load\<close> reads the whole file, which decodes it, and
  parses the text. Of the errors raised inside \<open>try\<close>, the \<open>except\<close> clause catches
  \<open>JSONDecodeError\<close> and \<open>FileNotFoundError\<close>; any other goes on to the caller.
\<close>

definition json_load :: "string \<Rightarrow> py_error + json" where
  "json_load bytes = (case utf8_decode bytes of Inl e \<Rightarrow> Inl e | Inr text \<Rightarrow> json_loads text)"

definition load_library :: "string option \<Rightarrow> py_error + json" where
  "load_library file =
     (case file of
        None \<Rightarrow> Inr (JList [])
      | Some bytes \<Rightarrow>
          (case json_load bytes of
             Inl e \<Rightarrow>
               if e = JSONDecodeError \<or> e = FileNotFoundError then Inr (JList []) else Inl e
           | Inr v \<Rightarrow> Inr v))"

text \<open>
  The Python object of a book, with the keys in the order \<open>add_book\<close> writes them, and of
  a catalog.
\<close>

definition book_json :: "book \<Rightarrow> json" where
  "book_json b =
     JDict [(''title'', JStr (title b)), (''author'', JStr (author b)), (''year'', JInt (year b)),
            (''genre'', JStr (genre b)), (''read'', JBool (read b))]"

definition library_json :: "book list \<Rightarrow> json" where
  "library_json bs = JList (map book_json bs)"

text \<open>
  Well-formed text: the code units are the UTF-8 encoding of some characters. Every Python
  string that can be written to the file is of this kind.
\<close>

definition well_formed :: "string \<Rightarrow> bool" where
  "well_formed s = utf8_valid (map of_char s)"

definition text_ok :: "book \<Rightarrow> bool" where
  "text_ok b = (well_formed (title b) \<and> well_formed (author b) \<and> well_formed (genre b))"

section \<open>The tokens of a written catalog\<close>

text \<open>
  Used to state what the reader makes of the text that \<open>json_dump\<close> writes: the tokens
  of a book and of a catalog, and the code units of an escaped string.
\<close>

definition book_tokens :: "book \<Rightarrow> token list" where
  "book_tokens b =
     [TLBrace, TStr ''title'', TColon, TStr (title b), TComma,
      TStr ''author'', TColon, TStr (author b), TComma,
      TStr ''year'', TColon, TInt (year b), TComma,
      TStr ''genre'', TColon, TStr (genre b), TComma,
      TStr ''read'', TColon, (if read b then TTrue else TFalse), TRBrace]"

fun books_tokens :: "book list \<Rightarrow> token list" where
  "books_tokens [] = []"
| "books_tokens [b] = book_tokens b"
| "books_tokens (b # c # bs) = book_tokens b @ TComma # books_tokens (c # bs)"

definition library_tokens :: "book list \<Rightarrow> token list" where
  "library_tokens bs =
     (if bs = [] then [TLBracket, TRBracket] else TLBracket # books_tokens bs @ [TRBracket])"

definition escaped :: "string \<Rightarrow> nat list" where
  "escaped x = map of_char (concat (map escape_char x))"

section \<open>Example catalogs\<close>

definition dune :: book where
  "dune = \<lparr>title = ''Dune'', author = ''Frank Herbert'', year = 1965, genre = ''Sci-Fi'', read = True\<rparr>"

definition emma :: book where
  "emma = \<lparr>title = ''Emma'', author = ''Jane Austen'', year = 1815, genre = ''Romance'', read = False\<rparr>"

definition fresh :: manager where
  "fresh = \<lparr>library = [], storage = None, trace = []\<rparr>"


definition one_of_three :: manager where
  "one_of_three = \<lparr>library = [dune, emma, emma], storage = None, trace = []\<rparr>"

definition one_of_four :: manager where
  "one_of_four = \<lparr>library = [emma, emma, dune, emma], storage = None, trace = []\<rparr>"

definition miserables :: book where
  "miserables =
     \<lparr>title = ''Les Mis'' @ [CHR 0xC3, CHR 0xA9] @ ''rables'', author = ''Victor Hugo'',
      year = 1862, genre = [], read = False\<rparr>"

section \<open>Properties of the text functions\<close>







section \<open>Removing books\<close>


lemma library_remove_book:
  "library (remove_book m t) = [b \<leftarrow> library m. lower (title b) \<noteq> lower t]"
  by (simp add: remove_book_def save_library_def report_def Let_def)



text \<open>
  C10. The catalog after \<open>remove_book\<close> is a subsequence of the catalog before: every record
  that is kept is one of the original records, with all five fields as they were.
\<close>

theorem remove_book_keeps_records:
  "subseq (library (remove_book m t)) (library m) \<and>
   set (library (remove_book m t)) \<subseteq> set (library m)"
  by (simp add: library_remove_book)




section \<open>Searching\<close>




section \<open>Adding books\<close>

text \<open>An empty title or author, as given, is rejected and nothing else happens.\<close>

lemma add_book_rejects_empty:
  assumes "ttl = [] \<or> auth = []"
  shows "add_book m ttl auth yr gnr rs = m\<lparr>trace := trace m @ [StError ''Title and Author cannot be empty!'']\<rparr>"
  using assms by (auto simp: add_book_def report_def)

text \<open>
  C2. The test \<open>not title or not author\<close> runs on the strings as given, before \<open>strip\<close>.
  A title of three spaces passes it: a record with the empty title is appended, the file is
  written and success is reported.
\<close>

theorem add_book_whitespace_title:
  "strip ''   '' = [] \<and>
   library (add_book fresh ''   '' ''Frank Herbert'' (PyInt 1965) ''Sci-Fi'' True) =
     [\<lparr>title = [], author = ''Frank Herbert'', year = 1965, genre = ''Sci-Fi'', read = True\<rparr>] \<and>
   storage (add_book fresh ''   '' ''Frank Herbert'' (PyInt 1965) ''Sci-Fi'' True) \<noteq> storage fresh \<and>
   last (trace (add_book fresh ''   '' ''Frank Herbert'' (PyInt 1965) ''Sci-Fi'' True)) =
     StSuccess (added_message ''   '')"
proof -
  have s: "strip ''   '' = []" "strip ''Frank Herbert'' = ''Frank Herbert''" "strip ''Sci-Fi'' = ''Sci-Fi''"
    by code_simp+
  show ?thesis
    by (simp add: s add_book_def fresh_def save_library_def report_def Let_def)
qed



section \<open>Rounding\<close>

lemma round_half_even_error: "\<bar>of_int (round_half_even q) - q\<bar> \<le> 1 / 2"
proof -
  have "of_int \<lfloor>q\<rfloor> \<le> q" "q < of_int \<lfloor>q\<rfloor> + 1" by linarith+
  then show ?thesis
    by (auto simp: round_half_even_def Let_def)
qed

lemma round_half_even_of_int: "round_half_even (of_int n) = n"
  by (simp add: round_half_even_def)

lemma round_half_even_mono:
  assumes "q1 \<le> q2"
  shows "round_half_even q1 \<le> round_half_even q2"
proof -
  have b1: "of_int \<lfloor>q1\<rfloor> \<le> q1" "q1 < of_int \<lfloor>q1\<rfloor> + 1" by linarith+
  have b2: "of_int \<lfloor>q2\<rfloor> \<le> q2" "q2 < of_int \<lfloor>q2\<rfloor> + 1" by linarith+
  have r1: "round_half_even q1 \<le> \<lfloor>q1\<rfloor> + 1"
    by (simp add: round_half_even_def Let_def)
  have r2: "\<lfloor>q2\<rfloor> \<le> round_half_even q2"
    by (simp add: round_half_even_def Let_def)
  from assms have "\<lfloor>q1\<rfloor> \<le> \<lfloor>q2\<rfloor>" by (rule floor_mono)
  then consider "\<lfloor>q1\<rfloor> < \<lfloor>q2\<rfloor>" | "\<lfloor>q1\<rfloor> = \<lfloor>q2\<rfloor>" by linarith
  then show ?thesis
  proof cases
    case 1
    with r1 r2 show ?thesis by linarith
  next
    case 2
    with assms show ?thesis
      by (auto simp: round_half_even_def Let_def)
  qed
qed

lemma round_half_even_le: "q \<le> of_int n \<Longrightarrow> round_half_even q \<le> n"
  using round_half_even_mono [of q "of_int n"] by (simp add: round_half_even_of_int)

lemma round_half_even_ge: "of_int n \<le> q \<Longrightarrow> n \<le> round_half_even q"
  using round_half_even_mono [of "of_int n" q] by (simp add: round_half_even_of_int)

lemma bitlen_powi_bounds:
  assumes "0 < p"
  shows "(2::rat) powi (bitlen p - 1) \<le> of_int p \<and> of_int p < (2::rat) powi (bitlen p)"
proof -
  from assms have b: "2 ^ nat (bitlen p - 1) \<le> p" "p < 2 ^ nat (bitlen p)"
    using bitlen_bounds by blast+
  from assms have pos: "1 \<le> bitlen p"
    by (simp add: bitlen_alt_def)
  have "(of_int (2 ^ nat (bitlen p - 1)) :: rat) \<le> of_int p"
    using b(1) by (simp only: of_int_le_iff)
  moreover have "(of_int p :: rat) < of_int (2 ^ nat (bitlen p))"
    using b(2) by (simp only: of_int_less_iff)
  ultimately show ?thesis
    using pos by (simp add: power_int_def)
qed

lemma binade_bounds:
  assumes "0 < x"
  shows "2 powi (binade x) \<le> x \<and> x < 2 powi (binade x + 1)"
proof -
  obtain p q where pq: "quotient_of x = (p, q)"
    by (cases "quotient_of x")
  then have q: "0 < q" and x: "x = of_int p / of_int q"
    by (simp_all add: quotient_of_denom_pos quotient_of_div)
  with assms have p: "0 < p"
    by (simp add: zero_less_divide_iff)
  define k where "k = bitlen p - bitlen q"
  have bp: "(2::rat) powi (bitlen p - 1) \<le> of_int p" "of_int p < (2::rat) powi (bitlen p)"
    using bitlen_powi_bounds [OF p] by simp_all
  have bq: "(2::rat) powi (bitlen q - 1) \<le> of_int q" "of_int q < (2::rat) powi (bitlen q)"
    using bitlen_powi_bounds [OF q] by simp_all
  have qpos: "(0::rat) < of_int q" using q by simp
  have lo: "2 powi (k - 1) < x"
  proof -
    have "(2::rat) powi (k - 1) * of_int q < 2 powi (k - 1) * 2 powi (bitlen q)"
      using bq(2) by (simp add: mult_strict_left_mono)
    also have "\<dots> = 2 powi (bitlen p - 1)"
      by (simp add: k_def flip: power_int_add)
    also have "\<dots> \<le> of_int p" by (rule bp(1))
    finally show ?thesis
      using qpos by (simp add: x pos_less_divide_eq)
  qed
  have hi: "x < 2 powi (k + 1)"
  proof -
    have "of_int p < (2::rat) powi (bitlen p)" by (rule bp(2))
    also have "\<dots> = 2 powi (k + 1) * 2 powi (bitlen q - 1)"
      by (simp add: k_def flip: power_int_add)
    also have "\<dots> \<le> 2 powi (k + 1) * of_int q"
      using bq(1) by (simp add: mult_left_mono)
    finally show ?thesis
      using qpos by (simp add: x pos_divide_less_eq)
  qed
  have b: "binade x = (if 2 powi k \<le> x then k else k - 1)"
    by (simp add: binade_def pq k_def)
  show ?thesis
  proof (cases "2 powi k \<le> x")
    case True
    with hi b show ?thesis by simp
  next
    case False
    with lo b show ?thesis by simp
  qed
qed

lemma round_double_pos:
  assumes "0 < x"
  shows "round_double x = of_int (round_half_even (x / 2 powi (binade x - 52))) * 2 powi (binade x - 52)"
  using assms by (simp add: round_double_def Let_def)

lemma powi_pos: "(0::rat) < 2 powi n"
  by simp

lemma powi_split: "(2::rat) powi e = 2 ^ 52 * 2 powi (e - 52)"
proof -
  have "(2::rat) powi (52 + (e - 52)) = 2 powi 52 * 2 powi (e - 52)"
    by (rule power_int_add) simp
  then show ?thesis by simp
qed

lemma powi_split1: "(2::rat) powi (e + 1) = 2 ^ 53 * 2 powi (e - 52)"
proof -
  have "(2::rat) powi (53 + (e - 52)) = 2 powi 53 * 2 powi (e - 52)"
    by (rule power_int_add) simp
  then show ?thesis by (simp add: add.commute)
qed

lemma round_double_binade:
  assumes "0 < x"
  shows "2 powi (binade x) \<le> round_double x \<and> round_double x \<le> 2 powi (binade x + 1)"
proof -
  define u :: rat where "u = 2 powi (binade x - 52)"
  have u: "0 < u" by (simp add: u_def)
  from binade_bounds [OF assms] have "2 ^ 52 * u \<le> x" "x < 2 ^ 53 * u"
    using powi_split [of "binade x"] powi_split1 [of "binade x"] by (simp_all add: u_def)
  then have "of_int (2 ^ 52) \<le> x / u" "x / u \<le> of_int (2 ^ 53)"
    using u by (simp_all add: pos_le_divide_eq pos_divide_le_eq)
  then have "2 ^ 52 \<le> round_half_even (x / u)" "round_half_even (x / u) \<le> 2 ^ 53"
    using round_half_even_ge round_half_even_le by blast+
  then have "(of_int (2 ^ 52) :: rat) \<le> of_int (round_half_even (x / u))"
    "(of_int (round_half_even (x / u)) :: rat) \<le> of_int (2 ^ 53)"
    by (simp_all only: of_int_le_iff)
  then have "2 ^ 52 * u \<le> of_int (round_half_even (x / u)) * u"
    "of_int (round_half_even (x / u)) * u \<le> 2 ^ 53 * u"
    using u by (simp_all add: mult_right_mono)
  then show ?thesis
    using powi_split [of "binade x"] powi_split1 [of "binade x"]
    by (simp add: round_double_pos [OF assms] u_def)
qed

lemma round_double_error:
  assumes "0 < x"
  shows "\<bar>round_double x - x\<bar> \<le> x / 2 ^ 53"
proof -
  define u :: rat where "u = 2 powi (binade x - 52)"
  have u: "0 < u" by (simp add: u_def)
  have "round_double x - x = (of_int (round_half_even (x / u)) - x / u) * u"
    using u by (simp add: round_double_pos [OF assms] u_def left_diff_distrib)
  then have "\<bar>round_double x - x\<bar> = \<bar>of_int (round_half_even (x / u)) - x / u\<bar> * u"
    using u by (simp add: abs_mult)
  also have "\<dots> \<le> 1 / 2 * u"
    using round_half_even_error [of "x / u"] u by (simp add: mult_right_mono)
  also have "\<dots> = 2 ^ 52 * u / 2 ^ 53" by simp
  also have "\<dots> \<le> x / 2 ^ 53"
    using binade_bounds [OF assms] powi_split [of "binade x"]
    by (simp add: u_def divide_right_mono)
  finally show ?thesis .
qed

lemma round_double_nonneg:
  assumes "0 \<le> x"
  shows "0 \<le> round_double x"
proof (cases "x = 0")
  case True
  then show ?thesis by (simp add: round_double_def)
next
  case False
  with assms have "0 < x" by simp
  from round_double_binade [OF this] powi_pos [of "binade x"] show ?thesis
    by linarith
qed

lemma round_double_mono:
  assumes "0 < x" and "x \<le> y"
  shows "round_double x \<le> round_double y"
proof -
  from assms have y: "0 < y" by simp
  note bx = binade_bounds [OF assms(1)] and by' = binade_bounds [OF y]
  have "(2::rat) powi binade x < 2 powi (binade y + 1)"
    using bx by' assms(2) by linarith
  have le: "binade x \<le> binade y"
  proof (rule ccontr)
    assume "\<not> binade x \<le> binade y"
    then have "binade y + 1 \<le> binade x" by simp
    then have "(2::rat) powi (binade y + 1) \<le> 2 powi binade x"
      by (simp add: power_int_increasing)
    with \<open>(2::rat) powi binade x < 2 powi (binade y + 1)\<close> show False by simp
  qed
  show ?thesis
  proof (cases "binade x = binade y")
    case True
    define u :: rat where "u = 2 powi (binade x - 52)"
    have u: "0 < u" by (simp add: u_def)
    from assms(2) u have "x / u \<le> y / u"
      by (simp add: divide_right_mono)
    then have "round_half_even (x / u) \<le> round_half_even (y / u)"
      by (rule round_half_even_mono)
    then have "(of_int (round_half_even (x / u)) :: rat) \<le> of_int (round_half_even (y / u))"
      by (simp only: of_int_le_iff)
    with u have "of_int (round_half_even (x / u)) * u \<le> of_int (round_half_even (y / u)) * u"
      by (simp add: mult_right_mono)
    then show ?thesis
      using True by (simp add: round_double_pos [OF assms(1)] round_double_pos [OF y] u_def)
  next
    case False
    with le have "binade x + 1 \<le> binade y" by simp
    then have "(2::rat) powi (binade x + 1) \<le> 2 powi binade y"
      by (simp add: power_int_increasing)
    with round_double_binade [OF assms(1)] round_double_binade [OF y] show ?thesis
      by linarith
  qed
qed

section \<open>Statistics\<close>

lemma round_double_fixed: "round_double 1 = 1" "round_double 100 = 100"
  by code_simp+

lemma round_double_le:
  assumes "0 \<le> x" and "x \<le> c" and "round_double c = c"
  shows "round_double x \<le> c"
proof (cases "x = 0")
  case True
  with assms show ?thesis by (simp add: round_double_def)
next
  case False
  with assms have "0 < x" by simp
  from round_double_mono [OF this assms(2)] assms(3) show ?thesis by simp
qed

lemma read_books_count: "(\<Sum>b \<leftarrow> xs. (1::int)) = int (length xs)"
  by (induction xs) auto

lemma display_statistics_eq:
  "display_statistics m =
     (if library m = [] then Inr (0, PyInt 0)
      else Inr (int (length (library m)),
                PyFloat (round_double (round_double
                  (of_nat (length [b \<leftarrow> library m. read b]) / of_nat (length (library m))) * 100))))"
  by (simp add: display_statistics_def int_truediv_def float_mul_int_def read_books_count Let_def)

lemma percentage_range:
  assumes "r \<le> t" and "0 < t"
  shows "0 \<le> round_double (round_double (of_nat r / of_nat t) * 100) \<and>
         round_double (round_double (of_nat r / of_nat t) * 100) \<le> 100"
proof -
  let ?q = "of_nat r / of_nat t :: rat"
  from assms have q: "0 \<le> ?q" "?q \<le> 1" by simp_all
  then have y: "0 \<le> round_double ?q" "round_double ?q \<le> 1"
    using round_double_nonneg round_double_le round_double_fixed(1) by blast+
  then have "0 \<le> round_double ?q * 100" "round_double ?q * 100 \<le> 100" by simp_all
  then show ?thesis
    using round_double_nonneg round_double_le round_double_fixed(2) by blast
qed

text \<open>
  C9. \<open>display_statistics\<close> returns a pair for every catalog: the quotient is taken only
  when the catalog is not empty, so the division by zero cannot happen. The percentage it
  returns lies between 0 and 100.
\<close>

theorem display_statistics_total_and_bounded:
  "\<exists>p. display_statistics m = Inr (int (length (library m)), p) \<and> 0 \<le> py_value p \<and> py_value p \<le> 100"
proof (cases "library m = []")
  case True
  then show ?thesis by (simp add: display_statistics_eq)
next
  case False
  then have "length [b \<leftarrow> library m. read b] \<le> length (library m)" "0 < length (library m)"
    by simp_all
  from percentage_range [OF this] False show ?thesis
    by (simp add: display_statistics_eq)
qed

lemma percentage_error:
  assumes "0 < t"
  shows "\<bar>round_double (round_double (of_nat r / of_nat t) * 100) - 100 * of_nat r / of_nat t\<bar>
           \<le> (100 * of_nat r / of_nat t) / 2 ^ 51"
proof (cases "r = 0")
  case True
  then show ?thesis by (simp add: round_double_def)
next
  case False
  define q :: rat where "q = of_nat r / of_nat t"
  define y where "y = round_double q"
  from False assms have q: "0 < q" by (simp add: q_def)
  have ey: "\<bar>y - q\<bar> \<le> q / 2 ^ 53"
    unfolding y_def by (rule round_double_error [OF q])
  have "(0::rat) < 2 powi binade q" by simp
  also have "\<dots> \<le> round_double q"
    using round_double_binade [OF q] by simp
  finally have "0 < y" by (simp add: y_def)
  then have z: "0 < y * 100" by simp
  have ez: "\<bar>round_double (y * 100) - y * 100\<bar> \<le> y * 100 / 2 ^ 53"
    by (rule round_double_error [OF z])
  have "q / 2 ^ 53 \<le> q" using q by simp
  with ey have "y \<le> 2 * q" by linarith
  have "round_double (y * 100) - 100 * q = (round_double (y * 100) - y * 100) + 100 * (y - q)"
    by simp
  then have "\<bar>round_double (y * 100) - 100 * q\<bar>
      \<le> \<bar>round_double (y * 100) - y * 100\<bar> + \<bar>100 * (y - q)\<bar>"
    by (simp only: abs_triangle_ineq)
  also have "\<dots> = \<bar>round_double (y * 100) - y * 100\<bar> + 100 * \<bar>y - q\<bar>"
    by (simp only: abs_mult abs_numeral)
  also have "\<dots> \<le> y * 100 / 2 ^ 53 + 100 * (q / 2 ^ 53)"
    by (intro add_mono mult_left_mono ez ey) simp
  also have "\<dots> \<le> 100 * q / 2 ^ 51"
    using \<open>y \<le> 2 * q\<close> q by simp
  finally show ?thesis
    by (simp add: q_def y_def)
qed

text \<open>
  C6, as stated, fails: with one book read out of three the code returns the double
  33.33333333333333, which is neither the number \<open>100 / 3\<close> nor the double nearest to it
  (33.333333333333336, what \<open>100 * 1 / 3\<close> evaluates to).
\<close>

theorem display_statistics_counterexample:
  "display_statistics one_of_three = Inr (3, PyFloat (2345624805922133 / 70368744177664)) \<and>
   (2345624805922133 / 70368744177664 :: rat) \<noteq> 100 * 1 / 3 \<and>
   (2345624805922133 / 70368744177664 :: rat) \<noteq> round_double (100 * 1 / 3)"
  by code_simp

text \<open>
  C6, amended. \<open>display_statistics\<close> returns the number of records and the percentage read.
  For the empty catalog the percentage is the integer 0. Otherwise it is the double obtained
  by rounding the quotient of the number of read records by the number of records, multiplying
  by 100 and rounding again; it differs from \<open>100 * readCount / totalCount\<close> by at most
  that value divided by \<open>2\<^sup>5\<^sup>1\<close>.
\<close>

theorem display_statistics_value:
  "let total = length (library m);
       readc = length [b \<leftarrow> library m. read b];
       pct = round_double (round_double (of_nat readc / of_nat total) * 100)
   in (total = 0 \<longrightarrow> display_statistics m = Inr (0, PyInt 0)) \<and>
      (0 < total \<longrightarrow>
         display_statistics m = Inr (int total, PyFloat pct) \<and>
         \<bar>pct - 100 * of_nat readc / of_nat total\<bar> \<le> (100 * of_nat readc / of_nat total) / 2 ^ 51)"
  using percentage_error [of "length (library m)" "length [b \<leftarrow> library m. read b]"]
  by (simp add: display_statistics_eq Let_def)

theorem display_statistics_value_witness:
  "display_statistics fresh = Inr (0, PyInt 0) \<and>
   display_statistics one_of_four = Inr (4, PyFloat 25)"
proof -
  have e: "library fresh = []" "length (library one_of_four) = 4"
    "length [b \<leftarrow> library one_of_four. read b] = 1"
    by (simp_all add: fresh_def one_of_four_def dune_def emma_def)
  have r: "round_double (round_double (1 / 4) * 100) = 25"
    by code_simp
  from display_statistics_value [of fresh] display_statistics_value [of one_of_four]
  show ?thesis
    by (simp add: e r Let_def)
qed

section \<open>Loading\<close>

text \<open>
  What \<open>load_library\<close> recovers from: a missing file and text that is not JSON give the
  empty list, and a value that parses is returned as it is, whatever its shape.
\<close>

lemma load_library_recovers:
  "load_library None = Inr (JList [])"
  "json_load bytes = Inl JSONDecodeError \<Longrightarrow> load_library (Some bytes) = Inr (JList [])"
  "json_load bytes = Inr v \<Longrightarrow> load_library (Some bytes) = Inr v"
  by (simp_all add: load_library_def)

lemma load_library_examples:
  "load_library (Some ''{not json'') = Inr (JList [])"
  "load_library (Some ''{}'') = Inr (JDict [])"
  by code_simp+

text \<open>
  C7. A file whose bytes are not UTF-8 is not recovered from: a list of one accented title
  saved in Latin-1 holds the byte \<open>0xE9\<close> followed by a quote, decoding raises
  \<open>UnicodeDecodeError\<close>, which the \<open>except\<close> clause does not name, and \<open>load_library\<close>
  raises it to its caller.
\<close>

theorem load_library_undecodable:
  "load_library (Some (''['' @ [CHR 0x22] @ ''Caf'' @ [CHR 0xE9, CHR 0x22] @ '']'')) =
     Inl UnicodeDecodeError"
  by (simp add: load_library_def json_load_def utf8_decode_def is_cont_def)

section \<open>Reading back what was written\<close>

subsection \<open>The parser on the tokens of a catalog\<close>

lemma run_book:
  "run (st, Value) (book_tokens b @ ts) = run (st, Done (book_json b)) ts"
  by (simp add: book_tokens_def book_json_def)

lemma run_books:
  "bs \<noteq> [] \<Longrightarrow>
   run (FArr items # st, Value) (books_tokens bs @ TRBracket # ts) =
   run (st, Done (JList (rev items @ map book_json bs))) ts"
proof (induction bs arbitrary: items rule: books_tokens.induct)
  case 1
  then show ?case by simp
next
  case (2 b)
  show ?case by (simp add: run_book)
next
  case (3 b c bs)
  have "run (FArr items # st, Value) (books_tokens (b # c # bs) @ TRBracket # ts) =
        run (FArr (book_json b # items) # st, Value) (books_tokens (c # bs) @ TRBracket # ts)"
    by (simp add: run_book)
  also have "\<dots> = run (st, Done (JList (rev (book_json b # items) @ map book_json (c # bs)))) ts"
    by (rule "3.IH") simp
  finally show ?case by simp
qed

lemma run_open_array:
  "bs \<noteq> [] \<Longrightarrow>
   run ([], Value) (TLBracket # books_tokens bs @ TRBracket # ts) =
   run ([FArr []], Value) (books_tokens bs @ TRBracket # ts)"
  by (induction bs rule: books_tokens.induct) (simp_all add: book_tokens_def)

lemma run_library: "run ([], Value) (library_tokens bs) = Some (library_json bs)"
proof (cases "bs = []")
  case True
  then show ?thesis by (simp add: library_tokens_def library_json_def)
next
  case False
  then have "run ([], Value) (library_tokens bs) =
      run ([FArr []], Value) (books_tokens bs @ TRBracket # [])"
    using run_open_array [of bs "[]"] by (simp add: library_tokens_def)
  also have "\<dots> = run ([], Done (JList (rev [] @ map book_json bs))) []"
    using False by (rule run_books)
  finally show ?thesis by (simp add: library_json_def)
qed

subsection \<open>The tokens of the written text\<close>

lemma tokenize_space: "is_space c \<Longrightarrow> tokenize (c # s) = tokenize s"
  by (simp add: tokenize.simps)

lemma tokenize_spaces: "tokenize (replicate n (CHR '' '') @ s) = tokenize s"
  by (induction n) (simp_all add: tokenize_space is_space_def)

lemma tokenize_newline_indent: "tokenize (newline_indent n @ s) = tokenize s"
  by (simp add: newline_indent_def tokenize_space tokenize_spaces is_space_def)

lemma tokenize_punctuation:
  "tokenize (CHR ''['' # s) = cons_token TLBracket (tokenize s)"
  "tokenize (CHR '']'' # s) = cons_token TRBracket (tokenize s)"
  "tokenize (CHR ''{'' # s) = cons_token TLBrace (tokenize s)"
  "tokenize (CHR ''}'' # s) = cons_token TRBrace (tokenize s)"
  "tokenize (CHR '','' # s) = cons_token TComma (tokenize s)"
  "tokenize (CHR '':'' # s) = cons_token TColon (tokenize s)"
  by (simp_all add: tokenize.simps is_space_def punctuation_def)

lemma tokenize_true: "tokenize (''true'' @ s) = cons_token TTrue (tokenize s)"
  by (simp add: tokenize.simps is_space_def punctuation_def literal_def)

lemma tokenize_false: "tokenize (''false'' @ s) = cons_token TFalse (tokenize s)"
  by (simp add: tokenize.simps is_space_def punctuation_def literal_def)

lemma hex_val_hex_digit: "k < 16 \<Longrightarrow> hex_val (hex_digit k) = Some k"
  by (auto simp: hex_val_def hex_digit_def Let_def)

lemma read_hex4_control:
  assumes "n < 32"
  shows "read_hex4 (CHR ''0'' # CHR ''0'' # hex_digit (n div 16) # hex_digit (n mod 16) # r) = Some n"
proof -
  from assms have "n div 16 < 16" "n mod 16 < 16" by simp_all
  then have "hex_val (hex_digit (n div 16)) = Some (n div 16)"
    "hex_val (hex_digit (n mod 16)) = Some (n mod 16)"
    by (simp_all add: hex_val_hex_digit)
  moreover have "hex_val (CHR ''0'') = Some 0"
    by (simp add: hex_val_def)
  ultimately show ?thesis
    by (simp add: read_hex4_def)
qed

lemma scan_string_escape_char:
  "scan_string (escape_char c @ r) = prepend [c] (scan_string r)"
proof -
  consider (named) "c \<in> {CHR 0x22, CHR 0x5C, CHR 0x0A, CHR 0x0D, CHR 0x09, CHR 0x08, CHR 0x0C}"
    | (control) "c \<notin> {CHR 0x22, CHR 0x5C, CHR 0x0A, CHR 0x0D, CHR 0x09, CHR 0x08, CHR 0x0C}"
        "(of_char c :: nat) < 32"
    | (plain) "c \<notin> {CHR 0x22, CHR 0x5C, CHR 0x0A, CHR 0x0D, CHR 0x09, CHR 0x08, CHR 0x0C}"
        "\<not> (of_char c :: nat) < 32"
    by blast
  then show ?thesis
  proof cases
    case named
    then show ?thesis
      by (auto simp: escape_char_def simple_escape_def)
  next
    case control
    let ?n = "of_char c :: nat"
    from control have e: "escape_char c =
        [CHR 0x5C, CHR ''u'', CHR ''0'', CHR ''0'', hex_digit (?n div 16), hex_digit (?n mod 16)]"
      by (simp add: escape_char_def)
    have "utf8_encode ?n = [c]"
      using control(2) by (simp add: utf8_encode_def)
    then show ?thesis
      using control(2) read_hex4_control [OF control(2)] by (simp add: e)
  next
    case plain
    then show ?thesis
      by (simp add: escape_char_def)
  qed
qed

lemma scan_string_escaped:
  "scan_string (concat (map escape_char x) @ CHR 0x22 # s) = Some (x, s)"
  by (induction x) (simp_all add: scan_string_escape_char prepend_def)

lemma tokenize_json_string:
  "tokenize (json_string x @ s) = cons_token (TStr x) (tokenize s)"
  by (simp add: json_string_def tokenize.simps is_space_def punctuation_def scan_string_escaped)

lemma of_char_digit_char: "k < 10 \<Longrightarrow> (of_char (digit_char k) :: nat) = 48 + k"
  by (simp add: digit_char_def)

lemma is_digit_digit_char: "k < 10 \<Longrightarrow> is_digit (digit_char k)"
  by (simp add: is_digit_def of_char_digit_char)

lemma show_nat_digits: "list_all is_digit (show_nat n)"
proof (induction n rule: show_nat.induct)
  case (1 n)
  show ?case
  proof (cases "n < 10")
    case True
    then show ?thesis
      by (subst show_nat.simps) (simp add: is_digit_digit_char)
  next
    case False
    with 1 show ?thesis
      by (subst show_nat.simps) (simp add: is_digit_digit_char)
  qed
qed

lemma show_nat_nonempty: "show_nat n \<noteq> []"
  by (subst show_nat.simps) simp

lemma digit_char_0: "digit_char 0 = CHR ''0''"
  by code_simp

lemma show_nat_0: "show_nat 0 = ''0''"
  by (subst show_nat.simps) (simp add: digit_char_0)

lemma show_nat_hd: "0 < n \<Longrightarrow> hd (show_nat n) \<noteq> CHR ''0''"
proof (induction n rule: show_nat.induct)
  case (1 n)
  show ?case
  proof (cases "n < 10")
    case True
    with "1.prems" have "(of_char (digit_char n) :: nat) \<noteq> of_char (CHR ''0'')"
      by (simp add: of_char_digit_char)
    then have "digit_char n \<noteq> CHR ''0''" by auto
    with True show ?thesis
      by (subst show_nat.simps) simp
  next
    case False
    then have "0 < n div 10" by simp
    with False "1.IH" have "hd (show_nat (n div 10)) \<noteq> CHR ''0''" by simp
    with False show ?thesis
      by (subst show_nat.simps) (simp add: show_nat_nonempty)
  qed
qed

lemma digits_value_snoc:
  "digits_value (ds @ [d]) = digits_value ds * 10 + (of_char d - 48)"
  by (simp add: digits_value_def)

lemma digits_value_show_nat: "digits_value (show_nat n) = n"
proof (induction n rule: show_nat.induct)
  case (1 n)
  show ?case
  proof (cases "n < 10")
    case True
    then show ?thesis
      by (subst show_nat.simps) (simp add: digits_value_def of_char_digit_char)
  next
    case False
    with 1 have "digits_value (show_nat (n div 10)) = n div 10" by simp
    with False show ?thesis
      by (subst show_nat.simps) (simp add: digits_value_snoc of_char_digit_char)
  qed
qed

lemma not_digit_comma: "\<not> is_digit (CHR '','')"
  by (simp add: is_digit_def)

lemma takeWhile_digits:
  "list_all is_digit ds \<Longrightarrow> takeWhile is_digit (ds @ CHR '','' # s) = ds"
  by (induction ds) (simp_all add: not_digit_comma)

lemma dropWhile_digits:
  "list_all is_digit ds \<Longrightarrow> dropWhile is_digit (ds @ CHR '','' # s) = CHR '','' # s"
  by (induction ds) (simp_all add: not_digit_comma)

lemma scan_int_part_show_nat:
  "scan_int_part (show_nat n @ CHR '','' # s) = Some (show_nat n, CHR '','' # s)"
proof (cases "n = 0")
  case True
  then show ?thesis by (simp add: show_nat_0 scan_int_part_def)
next
  case False
  obtain d ds where ds: "show_nat n = d # ds"
    using show_nat_nonempty [of n] by (cases "show_nat n") auto
  with show_nat_digits [of n] have dig: "is_digit d" "list_all is_digit ds" by simp_all
  from False show_nat_hd [of n] ds have "d \<noteq> CHR ''0''" by simp
  with dig show ?thesis
    by (simp add: ds scan_int_part_def takeWhile_digits dropWhile_digits)
qed

lemma scan_after_comma:
  "scan_frac (CHR '','' # s) = ([], CHR '','' # s)" "scan_exp (CHR '','' # s) = ([], CHR '','' # s)"
  by (auto simp: scan_frac_def scan_exp_def split: list.splits)

lemma show_nat_not_minus: "hd (show_nat n) \<noteq> CHR ''-''"
proof -
  obtain d ds where ds: "show_nat n = d # ds"
    using show_nat_nonempty [of n] by (cases "show_nat n") auto
  with show_nat_digits [of n] have "is_digit d" by simp
  then have "d \<noteq> CHR ''-''" by (auto simp: is_digit_def)
  with ds show ?thesis by simp
qed

lemma scan_number_show_int:
  "scan_number (show_int i @ CHR '','' # s) = Some (TInt i, CHR '','' # s)"
proof (cases "i < 0")
  case True
  then show ?thesis
    by (simp add: show_int_def scan_number_def scan_int_part_show_nat scan_after_comma
        digits_value_show_nat)
next
  case False
  obtain d ds where ds: "show_nat (nat i) = d # ds"
    using show_nat_nonempty [of "nat i"] by (cases "show_nat (nat i)") auto
  with show_nat_not_minus [of "nat i"] have d: "d \<noteq> CHR ''-''" by simp
  have "scan_int_part (d # ds @ CHR '','' # s) = Some (d # ds, CHR '','' # s)"
    using scan_int_part_show_nat [of "nat i" s] by (simp add: ds)
  with False d show ?thesis
    using digits_value_show_nat [of "nat i"]
    by (simp add: show_int_def scan_number_def ds scan_after_comma)
qed

lemma digit_not:
  assumes "is_digit d"
  shows "d \<noteq> CHR ''n''" "d \<noteq> CHR ''t''" "d \<noteq> CHR ''f''" "d \<noteq> CHR ''N''" "d \<noteq> CHR ''I''"
    "d \<noteq> CHR ''-''" "d \<noteq> CHR 0x22" "d \<noteq> CHR '' ''" "d \<noteq> CHR 0x09" "d \<noteq> CHR 0x0A" "d \<noteq> CHR 0x0D"
    "d \<noteq> CHR ''{''" "d \<noteq> CHR ''}''" "d \<noteq> CHR ''[''" "d \<noteq> CHR '']''" "d \<noteq> CHR '',''" "d \<noteq> CHR '':''"
  using assms by (auto simp: is_digit_def)

lemma digit_starts_number:
  assumes "is_digit d"
  shows "\<not> is_space d" "punctuation d = None" "d \<noteq> CHR 0x22" "literal (d # r) = None"
  using digit_not [OF assms] by (simp_all add: is_space_def punctuation_def literal_def)

lemma minus_starts_number:
  assumes "is_digit d"
  shows "\<not> is_space (CHR ''-'')" "punctuation (CHR ''-'') = None" "literal (CHR ''-'' # d # r) = None"
  using digit_not [OF assms] by (simp_all add: is_space_def punctuation_def literal_def)

lemma tokenize_number:
  assumes "\<not> is_space c" "punctuation c = None" "c \<noteq> CHR 0x22" "literal (c # r) = None"
    and "scan_number (c # r) = Some (t, rest)"
  shows "tokenize (c # r) = cons_token t (tokenize rest)"
  by (subst tokenize.simps) (simp add: assms)

lemma tokenize_show_int:
  "tokenize (show_int i @ CHR '','' # s) = cons_token (TInt i) (tokenize (CHR '','' # s))"
proof -
  obtain d ds where ds: "show_nat (nat \<bar>i\<bar>) = d # ds"
    using show_nat_nonempty [of "nat \<bar>i\<bar>"] by (cases "show_nat (nat \<bar>i\<bar>)") auto
  with show_nat_digits [of "nat \<bar>i\<bar>"] have d: "is_digit d" by simp
  note n = scan_number_show_int [of i s]
  show ?thesis
  proof (cases "i < 0")
    case True
    then have t: "show_int i @ CHR '','' # s = CHR ''-'' # d # ds @ CHR '','' # s"
      using ds by (simp add: show_int_def)
    show ?thesis
      unfolding t
      by (rule tokenize_number) (use n minus_starts_number [OF d] in \<open>simp_all add: t\<close>)
  next
    case False
    then have t: "show_int i @ CHR '','' # s = d # ds @ CHR '','' # s"
      using ds by (simp add: show_int_def)
    show ?thesis
      unfolding t
      by (rule tokenize_number) (use n digit_starts_number [OF d] in \<open>simp_all add: t\<close>)
  qed
qed

lemma tokenize_member_string:
  assumes "tokenize s = Some ts"
  shows "tokenize (json_string k @ '': '' @ json_string x @ s) = Some (TStr k # TColon # TStr x # ts)"
  using assms
  by (simp add: tokenize_json_string tokenize_punctuation tokenize_space is_space_def cons_token_def)

lemma tokenize_separator:
  assumes "tokenize s = Some ts"
  shows "tokenize ('','' @ newline_indent n @ s) = Some (TComma # ts)"
  using assms by (simp add: tokenize_punctuation tokenize_newline_indent cons_token_def)

lemma tokenize_member_int:
  assumes "tokenize ('','' @ s) = Some ts"
  shows "tokenize (json_string k @ '': '' @ show_int i @ '','' @ s) = Some (TStr k # TColon # TInt i # ts)"
  using assms tokenize_show_int [of i s]
  by (simp add: tokenize_json_string tokenize_punctuation tokenize_space is_space_def cons_token_def)

lemma tokenize_member_bool:
  assumes "tokenize s = Some ts"
  shows "tokenize (json_string k @ '': '' @ (if x then ''true'' else ''false'') @ s) =
         Some (TStr k # TColon # (if x then TTrue else TFalse) # ts)"
  using assms tokenize_true [of s] tokenize_false [of s]
  by (simp add: tokenize_json_string tokenize_punctuation tokenize_space is_space_def cons_token_def)

lemma tokenize_encode_book:
  assumes "tokenize s = Some ts"
  shows "tokenize (encode_book b @ s) = Some (book_tokens b @ ts)"
proof -
  have "tokenize (newline_indent 1 @ ''}'' @ s) = Some (TRBrace # ts)"
    using assms by (simp add: tokenize_newline_indent tokenize_punctuation cons_token_def)
  note tokenize_member_bool [OF this, of "''read''" "read b"]
  note tokenize_separator [OF this, of 2]
  note tokenize_member_string [OF this, of "''genre''" "genre b"]
  note tokenize_separator [OF this, of 2]
  note tokenize_member_int [OF this, of "''year''" "year b"]
  note tokenize_separator [OF this, of 2]
  note tokenize_member_string [OF this, of "''author''" "author b"]
  note tokenize_separator [OF this, of 2]
  note tokenize_member_string [OF this, of "''title''" "title b"]
  then have "tokenize (''{'' @ newline_indent 2 @
      json_string ''title'' @ '': '' @ json_string (title b) @
      '','' @ newline_indent 2 @ json_string ''author'' @ '': '' @ json_string (author b) @
      '','' @ newline_indent 2 @ json_string ''year'' @ '': '' @ show_int (year b) @
      '','' @ newline_indent 2 @ json_string ''genre'' @ '': '' @ json_string (genre b) @
      '','' @ newline_indent 2 @ json_string ''read'' @ '': '' @
        (if read b then ''true'' else ''false'') @
      newline_indent 1 @ ''}'' @ s) = Some (book_tokens b @ ts)"
    by (simp add: tokenize_punctuation tokenize_newline_indent cons_token_def book_tokens_def)
  then show ?thesis
    by (simp add: encode_book_def)
qed

lemma tokenize_encode_books:
  assumes "tokenize s = Some ts"
  shows "tokenize (encode_books bs @ s) = Some (books_tokens bs @ ts)"
proof (induction bs rule: encode_books.induct)
  case 1
  show ?case using assms by simp
next
  case (2 b)
  show ?case using assms by (simp add: tokenize_encode_book)
next
  case (3 b c bs)
  from tokenize_separator [OF "3.IH", of 1]
  have "tokenize (encode_book b @ '','' @ newline_indent 1 @ encode_books (c # bs) @ s) =
        Some (book_tokens b @ TComma # books_tokens (c # bs) @ ts)"
    by (rule tokenize_encode_book)
  then show ?case by simp
qed

lemma tokenize_json_dump: "tokenize (json_dump bs) = Some (library_tokens bs)"
proof (cases "bs = []")
  case True
  then show ?thesis
    by (simp add: json_dump_def library_tokens_def tokenize_punctuation cons_token_def
        tokenize.simps(1))
next
  case False
  have "tokenize (newline_indent 0 @ '']'') = Some [TRBracket]"
    by (simp add: tokenize_newline_indent tokenize_punctuation cons_token_def tokenize.simps(1))
  from tokenize_encode_books [OF this, of bs]
  have "tokenize (''['' @ newline_indent 1 @ encode_books bs @ newline_indent 0 @ '']'') =
        Some (TLBracket # books_tokens bs @ [TRBracket])"
    by (simp add: tokenize_punctuation tokenize_newline_indent cons_token_def)
  with False show ?thesis
    by (simp add: json_dump_def library_tokens_def)
qed

lemma json_loads_json_dump: "json_loads (json_dump bs) = Inr (library_json bs)"
  by (simp add: json_loads_def tokenize_json_dump run_library)

subsection \<open>The written text is well-formed UTF-8\<close>

lemma utf8_valid_1: "a < 0x80 \<Longrightarrow> utf8_valid (a # bs) = utf8_valid bs"
  by simp

lemma utf8_valid_2:
  "0xC2 \<le> a \<Longrightarrow> a \<le> 0xDF \<Longrightarrow>
   utf8_valid (a # bs) = (case bs of b # cs \<Rightarrow> is_cont b \<and> utf8_valid cs | _ \<Rightarrow> False)"
  by simp

lemma utf8_valid_3:
  "0xE0 \<le> a \<Longrightarrow> a \<le> 0xEF \<Longrightarrow>
   utf8_valid (a # bs) =
     (case bs of
        b # c # ds \<Rightarrow>
          (if a = 0xE0 then 0xA0 \<le> b \<and> b \<le> 0xBF
           else if a = 0xED then 0x80 \<le> b \<and> b \<le> 0x9F
           else is_cont b) \<and>
          is_cont c \<and> utf8_valid ds
      | _ \<Rightarrow> False)"
  by simp

lemma utf8_valid_4:
  "0xF0 \<le> a \<Longrightarrow> a \<le> 0xF4 \<Longrightarrow>
   utf8_valid (a # bs) =
     (case bs of
        b # c # d # es \<Rightarrow>
          (if a = 0xF0 then 0x90 \<le> b \<and> b \<le> 0xBF
           else if a = 0xF4 then 0x80 \<le> b \<and> b \<le> 0x8F
           else is_cont b) \<and>
          is_cont c \<and> is_cont d \<and> utf8_valid es
      | _ \<Rightarrow> False)"
  by simp

lemma utf8_valid_bad:
  "0x80 \<le> a \<Longrightarrow> a < 0xC2 \<or> 0xF4 < a \<Longrightarrow> utf8_valid (a # bs) = False"
  by auto

lemma is_cont_high: "is_cont b \<Longrightarrow> 0x80 \<le> b"
  by (simp add: is_cont_def)

text \<open>
  A well-formed text starts with a character of one to four code units, all but a single
  one at least \<open>0x80\<close>, and what follows that character is again well formed.
\<close>

lemma utf8_valid_Cons:
  assumes "utf8_valid (a # bs)"
  shows "(a < 0x80 \<and> utf8_valid bs) \<or>
    (\<exists>b cs. bs = b # cs \<and> 0x80 \<le> a \<and> 0x80 \<le> b \<and> utf8_valid cs \<and>
       (\<forall>ys. utf8_valid (a # b # ys) = utf8_valid ys)) \<or>
    (\<exists>b c ds. bs = b # c # ds \<and> 0x80 \<le> a \<and> 0x80 \<le> b \<and> 0x80 \<le> c \<and> utf8_valid ds \<and>
       (\<forall>ys. utf8_valid (a # b # c # ys) = utf8_valid ys)) \<or>
    (\<exists>b c d es. bs = b # c # d # es \<and> 0x80 \<le> a \<and> 0x80 \<le> b \<and> 0x80 \<le> c \<and> 0x80 \<le> d \<and>
       utf8_valid es \<and> (\<forall>ys. utf8_valid (a # b # c # d # ys) = utf8_valid ys))"
proof -
  consider "a < 0x80" | "0xC2 \<le> a" "a \<le> 0xDF" | "0xE0 \<le> a" "a \<le> 0xEF"
    | "0xF0 \<le> a" "a \<le> 0xF4" | "0x80 \<le> a" "a < 0xC2 \<or> 0xF4 < a"
    by linarith
  then show ?thesis
  proof cases
    case 1
    with assms show ?thesis
      by (simp only: utf8_valid_1) simp
  next
    case 2
    with assms obtain b cs where bs: "bs = b # cs" and v: "is_cont b" "utf8_valid cs"
      by (auto simp only: utf8_valid_2 split: list.splits)
    have "utf8_valid (a # b # ys) = utf8_valid ys" for ys
      using 2 v(1) by (simp only: utf8_valid_2 list.case simp_thms)
    with bs v 2 is_cont_high [OF v(1)] show ?thesis
      by simp
  next
    case 3
    with assms obtain b c ds where bs: "bs = b # c # ds"
      and v: "if a = 0xE0 then 0xA0 \<le> b \<and> b \<le> 0xBF
              else if a = 0xED then 0x80 \<le> b \<and> b \<le> 0x9F else is_cont b"
        "is_cont c" "utf8_valid ds"
      by (auto simp only: utf8_valid_3 split: list.splits)
    from v(1) have b: "0x80 \<le> b"
      by (auto simp: is_cont_def split: if_splits)
    have "utf8_valid (a # b # c # ys) = utf8_valid ys" for ys
      using 3 v(1,2) by (simp only: utf8_valid_3 list.case simp_thms, simp?)
    with bs v 3 b is_cont_high [OF v(2)] show ?thesis
      by simp
  next
    case 4
    with assms obtain b c d es where bs: "bs = b # c # d # es"
      and v: "if a = 0xF0 then 0x90 \<le> b \<and> b \<le> 0xBF
              else if a = 0xF4 then 0x80 \<le> b \<and> b \<le> 0x8F else is_cont b"
        "is_cont c" "is_cont d" "utf8_valid es"
      by (auto simp only: utf8_valid_4 split: list.splits)
    from v(1) have b: "0x80 \<le> b"
      by (auto simp: is_cont_def split: if_splits)
    have "utf8_valid (a # b # c # d # ys) = utf8_valid ys" for ys
      using 4 v(1,2,3) by (simp only: utf8_valid_4 list.case simp_thms, simp?)
    with bs v 4 b is_cont_high [OF v(2)] is_cont_high [OF v(3)] show ?thesis
      by simp
  next
    case 5
    with assms show ?thesis
      by (simp only: utf8_valid_bad)
  qed
qed

lemma utf8_valid_append:
  "utf8_valid xs \<Longrightarrow> utf8_valid (xs @ ys) = utf8_valid ys"
proof (induction "length xs" arbitrary: xs rule: less_induct)
  case less
  show ?case
  proof (cases xs)
    case Nil
    then show ?thesis by simp
  next
    case (Cons a bs)
    have IH: "utf8_valid (cs @ ys) = utf8_valid ys" if "utf8_valid cs" "length cs \<le> length bs" for cs
      using less.hyps [of cs] that Cons by simp
    from less.prems Cons have "utf8_valid (a # bs)" by simp
    from utf8_valid_Cons [OF this] show ?thesis
    proof (elim disjE exE conjE)
      assume "a < 0x80" "utf8_valid bs"
      then show ?thesis
        using IH [of bs] by (simp only: Cons append_Cons utf8_valid_1, simp?)
    next
      fix b cs
      assume "bs = b # cs" "utf8_valid cs" "\<forall>ys. utf8_valid (a # b # ys) = utf8_valid ys"
      then show ?thesis
        using IH [of cs] by (simp add: Cons del: utf8_valid.simps)
    next
      fix b c ds
      assume "bs = b # c # ds" "utf8_valid ds" "\<forall>ys. utf8_valid (a # b # c # ys) = utf8_valid ys"
      then show ?thesis
        using IH [of ds] by (simp add: Cons del: utf8_valid.simps)
    next
      fix b c d es
      assume "bs = b # c # d # es" "utf8_valid es"
        "\<forall>ys. utf8_valid (a # b # c # d # ys) = utf8_valid ys"
      then show ?thesis
        using IH [of es] by (simp add: Cons del: utf8_valid.simps)
    qed
  qed
qed

lemma utf8_valid_ascii: "\<forall>x \<in> set xs. x < 0x80 \<Longrightarrow> utf8_valid xs"
  by (induction xs) simp_all

lemma escape_char_high:
  assumes "0x80 \<le> (of_char c :: nat)"
  shows "escape_char c = [c]"
proof -
  have "c \<noteq> CHR 0x22" "c \<noteq> CHR 0x5C" "c \<noteq> CHR 0x0A" "c \<noteq> CHR 0x0D" "c \<noteq> CHR 0x09"
    "c \<noteq> CHR 0x08" "c \<noteq> CHR 0x0C" "\<not> (of_char c :: nat) < 32"
    using assms by auto
  then show ?thesis
    by (simp add: escape_char_def)
qed

lemma hex_digit_ascii: "k < 16 \<Longrightarrow> (of_char (hex_digit k) :: nat) < 0x80"
  by (simp add: hex_digit_def)

lemma escape_char_ascii:
  assumes "(of_char c :: nat) < 0x80"
  shows "\<forall>d \<in> set (escape_char c). (of_char d :: nat) < 0x80"
proof -
  have "(of_char c :: nat) div 16 < 16" "(of_char c :: nat) mod 16 < 16"
    using assms by simp_all
  then show ?thesis
    using assms by (simp add: escape_char_def hex_digit_ascii)
qed

lemma escaped_Nil: "escaped [] = []"
  by (simp add: escaped_def)

lemma escaped_high: "0x80 \<le> (of_char c :: nat) \<Longrightarrow> escaped (c # x) = of_char c # escaped x"
  by (simp add: escaped_def escape_char_high)

lemma escaped_low:
  assumes "(of_char c :: nat) < 0x80"
  shows "utf8_valid (escaped (c # x)) = utf8_valid (escaped x)"
proof -
  have "utf8_valid (map of_char (escape_char c))"
    using escape_char_ascii [OF assms] by (intro utf8_valid_ascii) auto
  then have "utf8_valid (map of_char (escape_char c) @ escaped x) = utf8_valid (escaped x)"
    by (rule utf8_valid_append)
  then show ?thesis
    by (simp add: escaped_def)
qed

lemma utf8_valid_escaped:
  "utf8_valid (map of_char x) \<Longrightarrow> utf8_valid (escaped x)"
proof (induction "length x" arbitrary: x rule: less_induct)
  case less
  show ?case
  proof (cases x)
    case Nil
    then show ?thesis by (simp add: escaped_Nil)
  next
    case (Cons c0 x0)
    have IH: "utf8_valid (escaped y)" if "utf8_valid (map of_char y)" "length y \<le> length x0" for y
      using less.hyps [of y] that Cons by simp
    from less.prems Cons have "utf8_valid (of_char c0 # map of_char x0)"
      by simp
    from utf8_valid_Cons [OF this] show ?thesis
    proof (elim disjE exE conjE)
      assume "(of_char c0 :: nat) < 0x80" "utf8_valid (map of_char x0)"
      then show ?thesis
        using IH [of x0] by (simp add: Cons escaped_low)
    next
      fix b cs
      assume a: "map of_char x0 = b # cs" "0x80 \<le> (of_char c0 :: nat)" "0x80 \<le> b" "utf8_valid cs"
        "\<forall>ys. utf8_valid (of_char c0 # b # ys) = utf8_valid ys"
      from a(1) obtain c1 x1 where x0: "x0 = c1 # x1" "b = of_char c1" "cs = map of_char x1"
        by (auto simp: map_eq_Cons_conv)
      from a(4) have "utf8_valid (escaped x1)"
        unfolding x0 by (rule IH) (simp add: x0)
      with a show ?thesis
        by (simp add: Cons x0 escaped_high del: utf8_valid.simps)
    next
      fix b c ds
      assume a: "map of_char x0 = b # c # ds" "0x80 \<le> (of_char c0 :: nat)" "0x80 \<le> b" "0x80 \<le> c"
        "utf8_valid ds" "\<forall>ys. utf8_valid (of_char c0 # b # c # ys) = utf8_valid ys"
      from a(1) obtain c1 c2 x2 where x0: "x0 = c1 # c2 # x2" "b = of_char c1" "c = of_char c2"
          "ds = map of_char x2"
        by (auto simp: map_eq_Cons_conv)
      from a(5) have "utf8_valid (escaped x2)"
        unfolding x0 by (rule IH) (simp add: x0)
      with a show ?thesis
        by (simp add: Cons x0 escaped_high del: utf8_valid.simps)
    next
      fix b c d es
      assume a: "map of_char x0 = b # c # d # es" "0x80 \<le> (of_char c0 :: nat)" "0x80 \<le> b"
        "0x80 \<le> c" "0x80 \<le> d" "utf8_valid es"
        "\<forall>ys. utf8_valid (of_char c0 # b # c # d # ys) = utf8_valid ys"
      from a(1) obtain c1 c2 c3 x3 where x0: "x0 = c1 # c2 # c3 # x3" "b = of_char c1"
          "c = of_char c2" "d = of_char c3" "es = map of_char x3"
        by (auto simp: map_eq_Cons_conv)
      from a(6) have "utf8_valid (escaped x3)"
        unfolding x0 by (rule IH) (simp add: x0)
      with a show ?thesis
        by (simp add: Cons x0 escaped_high del: utf8_valid.simps)
    qed
  qed
qed

lemma well_formed_append: "well_formed s \<Longrightarrow> well_formed t \<Longrightarrow> well_formed (s @ t)"
  using utf8_valid_append [of "map of_char s" "map of_char t"] by (simp add: well_formed_def)

lemma well_formed_ascii: "\<forall>c \<in> set s. (of_char c :: nat) < 0x80 \<Longrightarrow> well_formed s"
  unfolding well_formed_def by (rule utf8_valid_ascii) auto

lemma well_formed_Cons: "(of_char c :: nat) < 0x80 \<Longrightarrow> well_formed s \<Longrightarrow> well_formed (c # s)"
  by (simp add: well_formed_def)

lemma well_formed_json_string:
  assumes "well_formed x"
  shows "well_formed (json_string x)"
proof -
  have "utf8_valid (escaped x)"
    using assms by (simp add: well_formed_def utf8_valid_escaped)
  then have "well_formed (concat (map escape_char x))"
    by (simp add: well_formed_def escaped_def)
  moreover have "well_formed [CHR 0x22]"
    by (simp add: well_formed_def)
  ultimately have "well_formed (concat (map escape_char x) @ [CHR 0x22])"
    by (rule well_formed_append)
  then show ?thesis
    by (simp add: json_string_def well_formed_Cons)
qed

lemma well_formed_show_int: "well_formed (show_int i)"
proof -
  have "\<forall>c \<in> set (show_nat n). (of_char c :: nat) < 0x80" for n
    using show_nat_digits [of n] by (auto simp: list_all_iff is_digit_def)
  then have "\<forall>c \<in> set (show_int i). (of_char c :: nat) < 0x80"
    by (simp add: show_int_def)
  then show ?thesis
    by (rule well_formed_ascii)
qed

lemma well_formed_newline_indent: "well_formed (newline_indent n)"
  by (rule well_formed_ascii) (simp add: newline_indent_def)

lemma well_formed_literals:
  "well_formed ''{''" "well_formed ''}''" "well_formed ''[''" "well_formed '']''"
  "well_formed '',''" "well_formed '': ''" "well_formed ''true''" "well_formed ''false''"
  "well_formed ''title''" "well_formed ''author''" "well_formed ''year''"
  "well_formed ''genre''" "well_formed ''read''" "well_formed []"
  by (simp_all add: well_formed_def)

lemma well_formed_encode_book:
  assumes "well_formed (title b)" "well_formed (author b)" "well_formed (genre b)"
  shows "well_formed (encode_book b)"
  unfolding encode_book_def
  by (intro well_formed_append well_formed_json_string well_formed_show_int
      well_formed_newline_indent well_formed_literals assms)
    (simp_all add: well_formed_literals)

lemma well_formed_encode_books:
  "list_all text_ok bs \<Longrightarrow> well_formed (encode_books bs)"
proof (induction bs rule: encode_books.induct)
  case 1
  show ?case by (simp add: well_formed_literals)
next
  case (2 b)
  then show ?case by (simp add: text_ok_def well_formed_encode_book)
next
  case (3 b c bs)
  then have "well_formed (encode_book b)" "well_formed (encode_books (c # bs))"
    by (simp_all add: text_ok_def well_formed_encode_book)
  then have "well_formed (encode_book b @ '','' @ newline_indent 1 @ encode_books (c # bs))"
    by (intro well_formed_append well_formed_newline_indent well_formed_literals)
  then show ?case by simp
qed

lemma well_formed_json_dump:
  assumes "list_all text_ok bs"
  shows "well_formed (json_dump bs)"
proof (cases "bs = []")
  case True
  then show ?thesis by (simp add: json_dump_def well_formed_def)
next
  case False
  have "well_formed (''['' @ newline_indent 1 @ encode_books bs @ newline_indent 0 @ '']'')"
    by (intro well_formed_append well_formed_newline_indent well_formed_literals
        well_formed_encode_books assms)
  with False show ?thesis by (simp add: json_dump_def)
qed

subsection \<open>Round trip\<close>

text \<open>
  C8. After \<open>save_library\<close>, \<open>load_library\<close> returns the catalog that was saved: the list
  of the same books in the same order, each the dictionary of its five fields. The text
  fields are well-formed text, as every string that can be written is.
\<close>

theorem save_load_round_trip:
  assumes "list_all text_ok (library m)"
  shows "load_library (storage (save_library m)) = Inr (library_json (library m))"
proof -
  have "utf8_decode (json_dump (library m)) = Inr (json_dump (library m))"
    using well_formed_json_dump [OF assms] by (simp add: utf8_decode_def well_formed_def)
  then show ?thesis
    by (simp add: save_library_def load_library_def json_load_def json_loads_json_dump)
qed

theorem save_load_round_trip_witness:
  "list_all text_ok [dune, miserables] \<and>
   load_library (storage (save_library \<lparr>library = [dune, miserables], storage = None, trace = []\<rparr>)) =
     Inr (JList
       [JDict [(''title'', JStr ''Dune''), (''author'', JStr ''Frank Herbert''),
               (''year'', JInt 1965), (''genre'', JStr ''Sci-Fi''), (''read'', JBool True)],
        JDict [(''title'', JStr (''Les Mis'' @ [CHR 0xC3, CHR 0xA9] @ ''rables'')),
               (''author'', JStr ''Victor Hugo''), (''year'', JInt 1862), (''genre'', JStr []),
               (''read'', JBool False)]])"
proof -
  have h: "list_all text_ok (library \<lparr>library = [dune, miserables], storage = None, trace = []\<rparr>)"
    by (simp add: text_ok_def well_formed_def dune_def miserables_def is_cont_def)
  from save_load_round_trip [OF h] h show ?thesis
    by (simp add: library_json_def book_json_def dune_def miserables_def)
qed

end
